theory Spec2Isabelle
  imports Complex_Main "HOL-Library.Word" "HOL-Library.Log_Nat"
begin

unbundle bit_operations_syntax

section \<open>gpu::Framebuffer (libraries/gpu/src/gpu/Framebuffer.cpp)\<close>

text \<open>
  \<^verbatim>\<open>Texture.h\<close> and \<^verbatim>\<open>Framebuffer.h\<close> are not among the sources. Of a texture the
  model keeps what \<^verbatim>\<open>Framebuffer.cpp\<close> reads from it: its type (only \<^verbatim>\<open>TEX_1D\<close> is
  named by the code), width, height and sample count. A \<^verbatim>\<open>TexturePointer\<close> is an
  optional texture, \<open>None\<close> being the null pointer; a swapchain pointer likewise.
  \<^verbatim>\<open>uint16\<close> and \<^verbatim>\<open>uint32\<close> are 16- and 32-bit words.
\<close>

datatype TextureType = TEX_1D | TEX_2D | TEX_3D | TEX_CUBE

record Texture =
  Texture_getType :: TextureType
  Texture_getWidth :: "16 word"
  Texture_getHeight :: "16 word"
  Texture_getNumSamples :: "16 word"

type_synonym TexturePointer = "Texture option"

record Swapchain =
  Swapchain_getWidth :: "16 word"
  Swapchain_getHeight :: "16 word"
  Swapchain_getNumSamples :: "16 word"
  Swapchain_getFrameCount :: "32 word"

record Framebuffer =
  swapchain :: "Swapchain option"
  frameCount :: "32 word"
  buffersMask :: "32 word"
  renderBuffers :: "TexturePointer list"
  renderBuffersSubresource :: "32 word list"
  depthStencilBuffer :: TexturePointer
  depthStencilBufferSubresource :: "32 word"
  width :: "16 word"
  height :: "16 word"
  numSamples :: "16 word"

text \<open>
  \<^verbatim>\<open>Framebuffer::Framebuffer()\<close> has an empty body: the vectors start empty and the
  pointers null; the scalar members start at zero.
\<close>

definition Framebuffer_ctor :: Framebuffer where
  "Framebuffer_ctor =
     \<lparr>swapchain = None, frameCount = 0, buffersMask = 0,
      renderBuffers = [], renderBuffersSubresource = [],
      depthStencilBuffer = None, depthStencilBufferSubresource = 0,
      width = 0, height = 0, numSamples = 0\<rparr>"

text \<open>\<^verbatim>\<open>std::vector::resize(n, d)\<close>: cut to \<open>n\<close> elements or fill up with \<open>d\<close>.\<close>

definition vector_resize :: "'a list \<Rightarrow> nat \<Rightarrow> 'a \<Rightarrow> 'a list" where
  "vector_resize xs n d = take n xs @ replicate (n - length xs) d"

text \<open>
  \<^verbatim>\<open>Framebuffer::create()\<close>. The constant \<^verbatim>\<open>MAX_NUM_RENDER_BUFFERS\<close> is declared in
  the absent header and is the parameter \<open>MAX_NUM_RENDER_BUFFERS\<close> here.
\<close>

definition create :: "32 word \<Rightarrow> Framebuffer" where
  "create MAX_NUM_RENDER_BUFFERS =
     (let framebuffer = Framebuffer_ctor;
          framebuffer = framebuffer\<lparr>renderBuffers :=
            vector_resize (renderBuffers framebuffer) (unat MAX_NUM_RENDER_BUFFERS) None\<rparr>;
          framebuffer = framebuffer\<lparr>renderBuffersSubresource :=
            vector_resize (renderBuffersSubresource framebuffer) (unat MAX_NUM_RENDER_BUFFERS) 0\<rparr>
      in framebuffer)"

definition isSwapchain :: "Framebuffer \<Rightarrow> bool" where
  "isSwapchain fb = (swapchain fb \<noteq> None)"

definition isEmpty :: "Framebuffer \<Rightarrow> bool" where
  "isEmpty fb = (buffersMask fb = 0)"

definition getWidth :: "Framebuffer \<Rightarrow> 16 word" where
  "getWidth fb = (case swapchain fb of Some sc \<Rightarrow> Swapchain_getWidth sc | None \<Rightarrow> width fb)"

definition getHeight :: "Framebuffer \<Rightarrow> 16 word" where
  "getHeight fb = (case swapchain fb of Some sc \<Rightarrow> Swapchain_getHeight sc | None \<Rightarrow> height fb)"

definition getNumSamples :: "Framebuffer \<Rightarrow> 16 word" where
  "getNumSamples fb =
     (case swapchain fb of Some sc \<Rightarrow> Swapchain_getNumSamples sc | None \<Rightarrow> numSamples fb)"

definition validateTargetCompatibility :: "Framebuffer \<Rightarrow> Texture \<Rightarrow> 32 word \<Rightarrow> bool" where
  "validateTargetCompatibility fb texture subresource =
     (if Texture_getType texture = TEX_1D then False
      else if isEmpty fb then True
      else if Texture_getWidth texture = getWidth fb
            \<and> Texture_getHeight texture = getHeight fb
            \<and> Texture_getNumSamples texture = getNumSamples fb then True
      else False)"

definition updateSize :: "TexturePointer \<Rightarrow> Framebuffer \<Rightarrow> Framebuffer" where
  "updateSize texture fb =
     (if \<not> isEmpty fb then fb
      else case texture of
        Some t \<Rightarrow> fb\<lparr>width := Texture_getWidth t, height := Texture_getHeight t,
                     numSamples := Texture_getNumSamples t\<rparr>
      | None \<Rightarrow> fb\<lparr>width := 0, height := 0, numSamples := 0\<rparr>)"

text \<open>
  What C++ leaves undefined is a fault of the model: indexing a vector at or beyond its
  size, and shifting the \<^verbatim>\<open>int\<close> 1 left by 31 places or more.
\<close>

datatype fault = IndexOutOfRange | ShiftOverflow

text \<open>
  \<^verbatim>\<open>Framebuffer::setRenderBuffer\<close>. The value of \<^verbatim>\<open>getMaxNumRenderBuffers()\<close>, declared
  in the absent header, is the parameter \<open>maxNumRenderBuffers\<close>. The result is the
  returned \<^verbatim>\<open>int\<close> and the framebuffer after the call.
\<close>

definition setRenderBuffer ::
  "32 word \<Rightarrow> 32 word \<Rightarrow> TexturePointer \<Rightarrow> 32 word \<Rightarrow> Framebuffer \<Rightarrow> fault + (int \<times> Framebuffer)"
where
  "setRenderBuffer maxNumRenderBuffers slot texture subresource fb =
     (if isSwapchain fb then Inr (- 1, fb)
      else if slot \<ge> maxNumRenderBuffers then Inr (- 1, fb)
      else if (case texture of Some t \<Rightarrow> \<not> validateTargetCompatibility fb t subresource
                             | None \<Rightarrow> False) then Inr (- 1, fb)
      else if unat slot \<ge> length (renderBuffers fb)
            \<or> unat slot \<ge> length (renderBuffersSubresource fb) then Inl IndexOutOfRange
      else
        let fb = (if renderBuffers fb ! unat slot \<noteq> None
                  then fb\<lparr>renderBuffers := (renderBuffers fb)[unat slot := None],
                          renderBuffersSubresource :=
                            (renderBuffersSubresource fb)[unat slot := 0]\<rparr>
                  else fb);
            fb = updateSize texture fb;
            fb = fb\<lparr>renderBuffers := (renderBuffers fb)[unat slot := texture]\<rparr>;
            fb = fb\<lparr>renderBuffersSubresource :=
                      (renderBuffersSubresource fb)[unat slot := subresource]\<rparr>
        in if unat slot \<ge> 31 then Inl ShiftOverflow
           else
             let mask = (push_bit (unat slot) 1 :: 32 word);
                 fb = fb\<lparr>buffersMask := buffersMask fb AND NOT mask\<rparr>;
                 fb = (if texture \<noteq> None then fb\<lparr>buffersMask := buffersMask fb OR mask\<rparr>
                       else fb)
             in Inr (sint slot, fb))"

text \<open>\<^verbatim>\<open>Framebuffer::getNumRenderBuffers\<close>: the loop adds \<^verbatim>\<open>!i\<close> for every slot.\<close>

definition getNumRenderBuffers :: "Framebuffer \<Rightarrow> 32 word" where
  "getNumRenderBuffers fb =
     fold (\<lambda>i nb. nb + (if i = None then 1 else 0)) (renderBuffers fb) 0"


section \<open>Bitstream.h: the repeated-value dictionary\<close>

text \<open>
  \<^verbatim>\<open>Bitstream.h\<close> defines the member functions of \<^verbatim>\<open>RepeatedValueStreamer<T>\<close>; those of
  \<^verbatim>\<open>Bitstream\<close> and \<^verbatim>\<open>IDStreamer\<close> are only declared there. The dictionary talks to
  them through four calls: \<^verbatim>\<open>_idStreamer << id\<close>, \<^verbatim>\<open>_stream << value\<close>,
  \<^verbatim>\<open>_idStreamer >> id\<close> and \<^verbatim>\<open>_stream >> value\<close>. The model records every such call as
  a token on the channel: a writer appends tokens, a reader takes them from the front,
  and what \<^verbatim>\<open>>>\<close> returns is what \<^verbatim>\<open><<\<close> was given (the ID coder and the encoding of
  the values are taken to round-trip). The channel is the referenced \<^verbatim>\<open>Bitstream\<close> and
  is passed beside the streamer's own members; the member \<^verbatim>\<open>_idStreamer\<close> is that
  channel's ID tokens. The record field for \<^verbatim>\<open>_values\<close> is \<open>values_hash\<close>.

  A C++ \<^verbatim>\<open>int\<close> has 32 bits: its values are the integers that \<open>int_fits\<close> admits.
  An increment or an addition whose result is not among them is undefined in C++ (a
  machine that wraps around stores -2147483648 after 2147483647) and is the fault
  \<open>SignedOverflow\<close> of the model: the call does not return.
\<close>

datatype 'v token = IdToken int | ValueToken 'v

datatype stream_error = EndOfStream | UnexpectedToken

datatype int_fault = SignedOverflow

definition int_fits :: "int \<Rightarrow> bool" where
  "int_fits x \<longleftrightarrow> - 2147483648 \<le> x \<and> x \<le> 2147483647"

record 'v RepeatedValueStreamer =
  lastPersistentID :: int
  lastTransientOffset :: int
  persistentIDs :: "'v \<rightharpoonup> int"
  transientOffsets :: "'v \<rightharpoonup> int"
  values_hash :: "int \<rightharpoonup> 'v"

text \<open>\<^verbatim>\<open>QHash::value(key)\<close>: the stored value, or a default-constructed one (0).\<close>

definition QHash_value :: "('k \<rightharpoonup> int) \<Rightarrow> 'k \<Rightarrow> int" where
  "QHash_value h k = (case h k of None \<Rightarrow> 0 | Some i \<Rightarrow> i)"

text \<open>\<^verbatim>\<open>QHash::operator[](key)\<close>: inserts a default-constructed value for a new key.\<close>

definition QHash_index :: "('k \<rightharpoonup> int) \<Rightarrow> 'k \<Rightarrow> ('k \<rightharpoonup> int)" where
  "QHash_index h k = (case h k of None \<Rightarrow> h(k \<mapsto> 0) | Some i \<Rightarrow> h)"

definition RepeatedValueStreamer_ctor :: "'v RepeatedValueStreamer" where
  "RepeatedValueStreamer_ctor =
     \<lparr>lastPersistentID = 0, lastTransientOffset = 0, persistentIDs = Map.empty,
      transientOffsets = Map.empty, values_hash = Map.empty\<rparr>"

definition getAndResetTransientOffsets ::
  "'v RepeatedValueStreamer \<Rightarrow> ('v \<rightharpoonup> int) \<times> 'v RepeatedValueStreamer"
where
  "getAndResetTransientOffsets s =
     (transientOffsets s, s\<lparr>transientOffsets := Map.empty, lastTransientOffset := 0\<rparr>)"

text \<open>\<^verbatim>\<open>RepeatedValueStreamer<T>::operator<<(T value)\<close>\<close>

fun RepeatedValueStreamer_write ::
  "'v \<Rightarrow> 'v RepeatedValueStreamer \<times> 'v token list
      \<Rightarrow> int_fault + ('v RepeatedValueStreamer \<times> 'v token list)"
where
  "RepeatedValueStreamer_write val (s, stream) =
     (let ident = QHash_value (persistentIDs s) val
      in if ident = 0 then
           let s = s\<lparr>transientOffsets := QHash_index (transientOffsets s) val\<rparr>;
               offset = QHash_value (transientOffsets s) val
           in if offset = 0 then
                if \<not> int_fits (lastTransientOffset s + 1) then Inl SignedOverflow
                else
                  let s = s\<lparr>lastTransientOffset := lastTransientOffset s + 1\<rparr>;
                      s = s\<lparr>transientOffsets :=
                              (transientOffsets s)(val \<mapsto> lastTransientOffset s)\<rparr>
                  in if \<not> int_fits (lastPersistentID s + lastTransientOffset s)
                     then Inl SignedOverflow
                     else Inr (s, stream @ [IdToken (lastPersistentID s + lastTransientOffset s),
                                           ValueToken val])
              else if \<not> int_fits (lastPersistentID s + offset) then Inl SignedOverflow
                   else Inr (s, stream @ [IdToken (lastPersistentID s + offset)])
         else Inr (s, stream @ [IdToken ident]))"

text \<open>\<^verbatim>\<open>_idStreamer >> id\<close> and \<^verbatim>\<open>_stream >> value\<close> on the channel.\<close>

fun readId :: "'v token list \<Rightarrow> stream_error + (int \<times> 'v token list)" where
  "readId [] = Inl EndOfStream"
| "readId (IdToken i # stream) = Inr (i, stream)"
| "readId (ValueToken v # stream) = Inl UnexpectedToken"

fun readValue :: "'v token list \<Rightarrow> stream_error + ('v \<times> 'v token list)" where
  "readValue [] = Inl EndOfStream"
| "readValue (ValueToken v # stream) = Inr (v, stream)"
| "readValue (IdToken i # stream) = Inl UnexpectedToken"

text \<open>\<^verbatim>\<open>RepeatedValueStreamer<T>::operator>>(T& value)\<close>\<close>

fun RepeatedValueStreamer_read ::
  "'v RepeatedValueStreamer \<times> 'v token list
      \<Rightarrow> stream_error + ('v \<times> 'v RepeatedValueStreamer \<times> 'v token list)"
where
  "RepeatedValueStreamer_read (s, stream) =
     (case readId stream of
        Inl e \<Rightarrow> Inl e
      | Inr (ident, stream) \<Rightarrow>
          (case values_hash s ident of
             None \<Rightarrow>
               (case readValue stream of
                  Inl e \<Rightarrow> Inl e
                | Inr (val, stream) \<Rightarrow>
                    Inr (val, s\<lparr>values_hash := (values_hash s)(ident \<mapsto> val)\<rparr>, stream))
           | Some val \<Rightarrow> Inr (val, s, stream)))"

text \<open>
  A session: writing a sequence of values, up to the first fault, and reading a number
  of values back.
\<close>

fun writeValues ::
  "'v list \<Rightarrow> 'v RepeatedValueStreamer \<times> 'v token list
      \<Rightarrow> int_fault + ('v RepeatedValueStreamer \<times> 'v token list)"
where
  "writeValues [] st = Inr st"
| "writeValues (v # vs) st =
     (case RepeatedValueStreamer_write v st of
        Inl f \<Rightarrow> Inl f
      | Inr st' \<Rightarrow> writeValues vs st')"

fun readValues ::
  "nat \<Rightarrow> 'v RepeatedValueStreamer \<times> 'v token list
      \<Rightarrow> stream_error + ('v list \<times> 'v RepeatedValueStreamer \<times> 'v token list)"
where
  "readValues 0 st = Inr ([], st)"
| "readValues (Suc n) st =
     (case RepeatedValueStreamer_read st of
        Inl e \<Rightarrow> Inl e
      | Inr (v, st') \<Rightarrow>
          (case readValues n st' of
             Inl e \<Rightarrow> Inl e
           | Inr (vs, st'') \<Rightarrow> Inr (v # vs, st'')))"

text \<open>
  The distinct values of a sequence in the order of their first occurrence, and the
  IDs of a channel that are followed by a full value, with that value.
\<close>

definition firstOccurrences :: "'v list \<Rightarrow> 'v list" where
  "firstOccurrences vs = rev (remdups (rev vs))"

fun fullValues :: "'v token list \<Rightarrow> (int \<times> 'v) list" where
  "fullValues (IdToken i # ValueToken v # stream) = (i, v) # fullValues stream"
| "fullValues (t # stream) = fullValues stream"
| "fullValues [] = []"

text \<open>
  What the constructor establishes and every member function that returns keeps: the
  counters are values of an \<^verbatim>\<open>int\<close> and not negative, and every offset in the table is
  one that was handed out.
\<close>

definition RepeatedValueStreamer_inv :: "'v RepeatedValueStreamer \<Rightarrow> bool" where
  "RepeatedValueStreamer_inv s \<longleftrightarrow>
     0 \<le> lastPersistentID s \<and> int_fits (lastPersistentID s)
     \<and> 0 \<le> lastTransientOffset s \<and> int_fits (lastTransientOffset s)
     \<and> (\<forall>v n. transientOffsets s v = Some n \<longrightarrow> 1 \<le> n \<and> n \<le> lastTransientOffset s)"

text \<open>
  A writer and a reader are in lock-step when the writer has no persistent IDs, its
  offsets are the numbers from 1 to its counter, and the reader's cache holds under each
  ID the value to which the writer gave that ID.
\<close>

definition lockstep :: "'v RepeatedValueStreamer \<Rightarrow> 'v RepeatedValueStreamer \<Rightarrow> bool" where
  "lockstep w r \<longleftrightarrow>
     (\<forall>v. QHash_value (persistentIDs w) v = 0)
     \<and> 0 \<le> lastTransientOffset w
     \<and> (\<forall>v n. transientOffsets w v = Some n \<longrightarrow> 1 \<le> n \<and> n \<le> lastTransientOffset w)
     \<and> (\<forall>i v. values_hash r i = Some v
             \<longleftrightarrow> transientOffsets w v = Some (i - lastPersistentID w))"

subsection \<open>The ID coder\<close>

text \<open>
  Modelled from the spec: the state of \<^verbatim>\<open>IDStreamer\<close>, whose member functions are defined in
  \<^verbatim>\<open>Bitstream.cpp\<close>, which is not among the sources. Section 4.2 of the specification:
  an ID is encoded in exactly \<open>ceil(log2(highestAssignedId + 2))\<close> bits, no bits while
  \<open>highestAssignedId\<close> is the initial sentinel "none assigned"; then, if the ID is
  \<open>highestAssignedId + 1\<close>, \<open>highestAssignedId\<close> advances. Reading decodes with the same
  width and advances by the same rule. The sentinel is \<open>-1\<close>, the value before the first
  ID 0. The specification does not fix the order of the bits of an ID on the channel;
  the least significant bit goes first here. The header declares one member of the
  coder, \<^verbatim>\<open>int _bits\<close>; the specification describes the state by the highest assigned
  ID, and the width is computed from it.
\<close>

record IDStreamer =
  highestAssignedId :: int

text \<open>
  Modelled from the spec: the constructor of \<^verbatim>\<open>IDStreamer\<close> (absent). No ID is assigned
  yet, so the first ID, 0, takes no bits.
\<close>

definition IDStreamer_ctor :: IDStreamer where
  "IDStreamer_ctor = \<lparr>highestAssignedId = - 1\<rparr>"

text \<open>
  Modelled from the spec: the width that the absent \<^verbatim>\<open>IDStreamer\<close> operators use,
  \<open>ceil(log2(highestAssignedId + 2))\<close>.
\<close>

definition IDStreamer_bits :: "IDStreamer \<Rightarrow> nat" where
  "IDStreamer_bits c = ceillog2 (nat (highestAssignedId c + 2))"

text \<open>
  Modelled from the spec: the step after an ID was written or read by the absent
  \<^verbatim>\<open>IDStreamer\<close> operators; an ID equal to \<open>highestAssignedId + 1\<close> becomes the highest.
\<close>

definition IDStreamer_advance :: "int \<Rightarrow> IDStreamer \<Rightarrow> IDStreamer" where
  "IDStreamer_advance i c =
     (if i = highestAssignedId c + 1 then c\<lparr>highestAssignedId := i\<rparr> else c)"

text \<open>
  Modelled from the spec: \<^verbatim>\<open>IDStreamer::operator<<(int value)\<close> (absent), on a channel of
  bits.
\<close>

fun IDStreamer_write :: "int \<Rightarrow> IDStreamer \<times> bool list \<Rightarrow> IDStreamer \<times> bool list" where
  "IDStreamer_write i (c, bs) =
     (IDStreamer_advance i c, bs @ map (bit i) [0..<IDStreamer_bits c])"

text \<open>
  Modelled from the spec: \<^verbatim>\<open>IDStreamer::operator>>(int& value)\<close> (absent); a channel that
  ends early is the transport exhaustion of section 7.
\<close>

fun IDStreamer_read ::
  "IDStreamer \<times> bool list \<Rightarrow> stream_error + (int \<times> IDStreamer \<times> bool list)"
where
  "IDStreamer_read (c, bs) =
     (let n = IDStreamer_bits c
      in if length bs < n then Inl EndOfStream
         else let i = horner_sum of_bool 2 (take n bs)
              in Inr (i, IDStreamer_advance i c, drop n bs))"

text \<open>The numbers of bits that writing a sequence of IDs takes, one per ID.\<close>

fun IDStreamer_widths :: "int list \<Rightarrow> IDStreamer \<times> bool list \<Rightarrow> nat list" where
  "IDStreamer_widths [] st = []"
| "IDStreamer_widths (i # is) st =
     (let st' = IDStreamer_write i st
      in (length (snd st') - length (snd st)) # IDStreamer_widths is st')"


fun streamCoder :: "IDStreamer \<Rightarrow> 'v token list \<Rightarrow> IDStreamer" where
  "streamCoder c [] = c"
| "streamCoder c (IdToken i # stream) = streamCoder (IDStreamer_advance i c) stream"
| "streamCoder c (ValueToken v # stream) = streamCoder c stream"


section \<open>Example states\<close>

definition Texture_64 :: Texture where
  "Texture_64 = \<lparr>Texture_getType = TEX_2D, Texture_getWidth = 64, Texture_getHeight = 64,
     Texture_getNumSamples = 1\<rparr>"

definition Texture_line :: Texture where
  "Texture_line = \<lparr>Texture_getType = TEX_1D, Texture_getWidth = 64, Texture_getHeight = 1,
     Texture_getNumSamples = 1\<rparr>"

definition Framebuffer_one :: Framebuffer where
  "Framebuffer_one =
     \<lparr>swapchain = None, frameCount = 0, buffersMask = 1,
      renderBuffers = [Some Texture_64, None, None, None, None, None, None, None],
      renderBuffersSubresource = [0, 0, 0, 0, 0, 0, 0, 0],
      depthStencilBuffer = None, depthStencilBufferSubresource = 0,
      width = 64, height = 64, numSamples = 1\<rparr>"



definition Streamer_zero_entry :: "string RepeatedValueStreamer" where
  "Streamer_zero_entry = RepeatedValueStreamer_ctor\<lparr>persistentIDs := [''A'' \<mapsto> 0]\<rparr>"

definition Streamer_entry :: "string RepeatedValueStreamer" where
  "Streamer_entry = RepeatedValueStreamer_ctor\<lparr>persistentIDs := [''A'' \<mapsto> 7], lastPersistentID := 7\<rparr>"

definition Writer_ABA :: "string RepeatedValueStreamer" where
  "Writer_ABA = \<lparr>lastPersistentID = 0, lastTransientOffset = 2, persistentIDs = Map.empty,
      transientOffsets = [''A'' \<mapsto> 1, ''B'' \<mapsto> 2], values_hash = Map.empty\<rparr>"

definition Stream_ABACB :: "string token list" where
  "Stream_ABACB = [IdToken 1, ValueToken ''A'', IdToken 2, ValueToken ''B'', IdToken 1,
                   IdToken 3, ValueToken ''C'', IdToken 2]"

definition Writer_ABACB :: "string RepeatedValueStreamer" where
  "Writer_ABACB = \<lparr>lastPersistentID = 0, lastTransientOffset = 3, persistentIDs = Map.empty,
      transientOffsets = [''A'' \<mapsto> 1, ''B'' \<mapsto> 2, ''C'' \<mapsto> 3], values_hash = Map.empty\<rparr>"

definition Reader_ABACB :: "string RepeatedValueStreamer" where
  "Reader_ABACB = \<lparr>lastPersistentID = 0, lastTransientOffset = 0, persistentIDs = Map.empty,
      transientOffsets = Map.empty, values_hash = [1 \<mapsto> ''A'', 2 \<mapsto> ''B'', 3 \<mapsto> ''C'']\<rparr>"


section \<open>Properties of the framebuffer\<close>

lemma fold_count_None:
  "fold (\<lambda>i nb. nb + (if i = None then 1 else 0)) xs (a :: 32 word)
     = a + of_nat (length (filter (\<lambda>i. i = None) xs))"
  by (induction xs arbitrary: a) simp_all

lemma filter_None_update:
  assumes "i < length xs" "xs ! i = None"
  shows "Suc (length (filter (\<lambda>j. j = None) (xs[i := Some t])))
           = length (filter (\<lambda>j. j = None) xs)"
proof -
  have xs: "xs = take i xs @ None # drop (Suc i) xs"
    using assms by (metis id_take_nth_drop)
  have "xs[i := Some t] = take i xs @ Some t # drop (Suc i) xs"
    using assms(1) by (rule upd_conv_take_nth_drop)
  then have "Suc (length (filter (\<lambda>j. j = None) (xs[i := Some t])))
      = length (filter (\<lambda>j. j = None) (take i xs @ None # drop (Suc i) xs))"
    by simp
  then show ?thesis using xs by simp
qed

lemma create_renderBuffers: "renderBuffers (create M) = replicate (unat M) None"
  by (simp add: create_def Framebuffer_ctor_def vector_resize_def Let_def)

lemma setRenderBuffer_success_renderBuffers:
  assumes "setRenderBuffer m slot texture sub fb = Inr (r, fb')" "r \<noteq> - 1"
  shows "unat slot < length (renderBuffers fb)
       \<and> renderBuffers fb' = (renderBuffers fb)[unat slot := texture]"
  using assms
  by (auto simp: setRenderBuffer_def Let_def updateSize_def split: if_splits option.splits)

text \<open>
  \<^verbatim>\<open>create()\<close> gives both vectors \<^verbatim>\<open>MAX_NUM_RENDER_BUFFERS\<close> slots, and
  \<^verbatim>\<open>setRenderBuffer\<close> keeps the number of slots.
\<close>

lemma create_lengths:
  "length (renderBuffers (create M)) = unat M
   \<and> length (renderBuffersSubresource (create M)) = unat M"
  by (simp add: create_def Framebuffer_ctor_def vector_resize_def Let_def)

lemma setRenderBuffer_lengths:
  assumes "setRenderBuffer m slot texture sub fb = Inr (r, fb')"
  shows "length (renderBuffers fb') = length (renderBuffers fb)
       \<and> length (renderBuffersSubresource fb') = length (renderBuffersSubresource fb)"
  using assms
  by (auto simp: setRenderBuffer_def Let_def updateSize_def split: if_splits option.splits)

lemma replicate_8: "replicate 8 x = [x, x, x, x, x, x, x, x]"
  by (simp add: eval_nat_numeral)

lemma create_8:
  "create 8 = \<lparr>swapchain = None, frameCount = 0, buffersMask = 0,
      renderBuffers = [None, None, None, None, None, None, None, None],
      renderBuffersSubresource = [0, 0, 0, 0, 0, 0, 0, 0],
      depthStencilBuffer = None, depthStencilBufferSubresource = 0,
      width = 0, height = 0, numSamples = 0\<rparr>"
  by (simp add: create_def Framebuffer_ctor_def vector_resize_def replicate_8)

lemma setRenderBuffer_create_example:
  "setRenderBuffer 8 0 (Some Texture_64) 0 (create 8) = Inr (0, Framebuffer_one)"
  by (simp add: setRenderBuffer_def create_8
      Framebuffer_one_def Texture_64_def validateTargetCompatibility_def isSwapchain_def
      isEmpty_def updateSize_def Let_def)

lemma sint_small_slot:
  assumes "unat (slot :: 32 word) < 31"
  shows "sint slot = int (unat slot)"
proof -
  have u: "uint slot = int (unat slot)" by (rule uint_nat)
  have "uint slot < 31" using assms u by linarith
  then have "uint slot < 2 ^ 31" by simp
  moreover have "- (2 ^ 31) \<le> uint slot"
    by (rule order_trans [of _ 0]) simp_all
  ultimately have "signed_take_bit 31 (uint slot) = uint slot"
    by (rule signed_take_bit_int_eq_self [rotated])
  with u show ?thesis by (simp add: sint_uint)
qed

text \<open>
  C9. \<^verbatim>\<open>Framebuffer::getNumRenderBuffers\<close> counts the empty slots, not the attached
  buffers: it returns the number of render-buffer slots whose texture pointer is null.
  For the framebuffer that \<^verbatim>\<open>Framebuffer::create()\<close> makes it returns
  \<^verbatim>\<open>MAX_NUM_RENDER_BUFFERS\<close>, and a successful \<^verbatim>\<open>setRenderBuffer\<close> of a non-null
  texture into a slot that was empty lowers the count by one.
\<close>

theorem getNumRenderBuffers_counts_empty_slots:
  "getNumRenderBuffers fb = of_nat (length (filter (\<lambda>i. i = None) (renderBuffers fb)))
   \<and> getNumRenderBuffers (create MAX_NUM_RENDER_BUFFERS) = MAX_NUM_RENDER_BUFFERS
   \<and> (setRenderBuffer m slot (Some t) sub fb = Inr (r, fb') \<longrightarrow> r \<noteq> - 1
        \<longrightarrow> renderBuffers fb ! unat slot = None
        \<longrightarrow> getNumRenderBuffers fb' = getNumRenderBuffers fb - 1)"
proof (intro conjI impI)
  show "getNumRenderBuffers fb = of_nat (length (filter (\<lambda>i. i = None) (renderBuffers fb)))"
    by (simp add: getNumRenderBuffers_def fold_count_None)
  show "getNumRenderBuffers (create MAX_NUM_RENDER_BUFFERS) = MAX_NUM_RENDER_BUFFERS"
    unfolding getNumRenderBuffers_def fold_count_None
    by (simp add: create_renderBuffers)
next
  assume a: "setRenderBuffer m slot (Some t) sub fb = Inr (r, fb')" "r \<noteq> - 1"
    and e: "renderBuffers fb ! unat slot = None"
  from setRenderBuffer_success_renderBuffers [OF a]
  have l: "unat slot < length (renderBuffers fb)"
    and u: "renderBuffers fb' = (renderBuffers fb)[unat slot := Some t]" by simp_all
  from filter_None_update [OF l e, of t]
  have "length (filter (\<lambda>j. j = None) (renderBuffers fb))
          = Suc (length (filter (\<lambda>j. j = None) (renderBuffers fb')))"
    using u by simp
  then show "getNumRenderBuffers fb' = getNumRenderBuffers fb - 1"
    by (simp add: getNumRenderBuffers_def fold_count_None)
qed

theorem getNumRenderBuffers_counts_empty_slots_witness:
  "getNumRenderBuffers (create 8) = 8
   \<and> setRenderBuffer 8 0 (Some Texture_64) 0 (create 8) = Inr (0, Framebuffer_one)
   \<and> renderBuffers (create 8) ! unat (0 :: 32 word) = None
   \<and> getNumRenderBuffers Framebuffer_one = 7"
proof -
  note t = getNumRenderBuffers_counts_empty_slots
    [of "create 8" 8 8 0 Texture_64 0 0 Framebuffer_one]
  have e: "renderBuffers (create 8) ! unat (0 :: 32 word) = None"
    by (simp add: create_8)
  have z: "(0 :: int) \<noteq> - 1" by simp
  from t have a: "getNumRenderBuffers (create 8) = 8" by blast
  from t setRenderBuffer_create_example e z
  have "getNumRenderBuffers Framebuffer_one = getNumRenderBuffers (create 8) - 1" by blast
  with a have "getNumRenderBuffers Framebuffer_one = 7" by simp
  with a e setRenderBuffer_create_example show ?thesis by blast
qed

text \<open>
  C10. \<^verbatim>\<open>Framebuffer::setRenderBuffer(slot, texture, subresource)\<close> fails as a whole:
  if the framebuffer is a swapchain, or \<open>slot\<close> is not below
  \<^verbatim>\<open>getMaxNumRenderBuffers()\<close>, or the non-null texture is not compatible (it is a 1D
  texture, or the framebuffer is not empty and differs from the texture in width,
  height or sample count), the call returns -1 and the framebuffer is unchanged.
  Otherwise it returns \<open>slot\<close>, the slot holds the texture and the subresource, and bit
  \<open>slot\<close> of the buffers mask is set exactly when the texture is non-null. The vectors
  hold at least \<^verbatim>\<open>getMaxNumRenderBuffers()\<close> slots, as \<^verbatim>\<open>create()\<close> sizes them, and that
  number fits the shift of an \<^verbatim>\<open>int\<close>.
\<close>

theorem setRenderBuffer_error_atomicity:
  assumes "unat maxNumRenderBuffers \<le> length (renderBuffers fb)"
    and "unat maxNumRenderBuffers \<le> length (renderBuffersSubresource fb)"
    and "unat maxNumRenderBuffers \<le> 31"
  shows "if isSwapchain fb \<or> slot \<ge> maxNumRenderBuffers
            \<or> (case texture of None \<Rightarrow> False
                | Some t \<Rightarrow> Texture_getType t = TEX_1D
                    \<or> (\<not> isEmpty fb
                        \<and> (Texture_getWidth t \<noteq> getWidth fb
                           \<or> Texture_getHeight t \<noteq> getHeight fb
                           \<or> Texture_getNumSamples t \<noteq> getNumSamples fb)))
         then setRenderBuffer maxNumRenderBuffers slot texture subresource fb = Inr (- 1, fb)
         else (case setRenderBuffer maxNumRenderBuffers slot texture subresource fb of
                 Inl f \<Rightarrow> False
               | Inr (r, fb') \<Rightarrow>
                   r = int (unat slot)
                   \<and> renderBuffers fb' ! unat slot = texture
                   \<and> renderBuffersSubresource fb' ! unat slot = subresource
                   \<and> (bit (buffersMask fb') (unat slot) \<longleftrightarrow> texture \<noteq> None))"
proof (cases "isSwapchain fb \<or> slot \<ge> maxNumRenderBuffers")
  case True
  then show ?thesis by (auto simp: setRenderBuffer_def)
next
  case False
  then have sw: "\<not> isSwapchain fb" and lt: "slot < maxNumRenderBuffers" by auto
  from lt have u: "unat slot < unat maxNumRenderBuffers" by (simp add: word_less_nat_alt)
  with assms have b: "unat slot < length (renderBuffers fb)"
    "unat slot < length (renderBuffersSubresource fb)" "unat slot < 31" by simp_all
  have s: "sint slot = int (unat slot)"
    using b(3) by (rule sint_small_slot)
  have nb: "\<not> 31 \<le> unat slot" "\<not> 32 \<le> unat slot" "unat slot < 32"
    using b(3) by simp_all
  show ?thesis
  proof (cases texture)
    case None
    with sw lt b s nb show ?thesis
      by (simp add: setRenderBuffer_def Let_def updateSize_def bit_simps
          linorder_not_le [symmetric])
  next
    case (Some t)
    show ?thesis
    proof (cases "validateTargetCompatibility fb t subresource")
      case True
      with Some sw lt b s nb show ?thesis
        by (auto simp: setRenderBuffer_def Let_def updateSize_def bit_simps
            validateTargetCompatibility_def linorder_not_le [symmetric] split: if_splits)
    next
      case False
      with Some sw lt show ?thesis
        by (auto simp: setRenderBuffer_def validateTargetCompatibility_def
            linorder_not_le [symmetric] split: if_splits)
    qed
  qed
qed

theorem setRenderBuffer_error_atomicity_witness:
  "unat (8 :: 32 word) \<le> length (renderBuffers (create 8))
   \<and> unat (8 :: 32 word) \<le> length (renderBuffersSubresource (create 8))
   \<and> unat (8 :: 32 word) \<le> 31
   \<and> setRenderBuffer 8 0 (Some Texture_64) 5 (create 8)
       = Inr (0, Framebuffer_one\<lparr>renderBuffersSubresource := [5, 0, 0, 0, 0, 0, 0, 0]\<rparr>)
   \<and> setRenderBuffer 8 1 (Some Texture_line) 0 Framebuffer_one = Inr (- 1, Framebuffer_one)
   \<and> setRenderBuffer 8 8 (Some Texture_64) 0 Framebuffer_one = Inr (- 1, Framebuffer_one)"
proof -
  have h: "unat (8 :: 32 word) \<le> length (renderBuffers (create 8))"
    "unat (8 :: 32 word) \<le> length (renderBuffersSubresource (create 8))"
    "unat (8 :: 32 word) \<le> 31"
    by (simp_all add: create_8)
  have g: "unat (8 :: 32 word) \<le> length (renderBuffers Framebuffer_one)"
    "unat (8 :: 32 word) \<le> length (renderBuffersSubresource Framebuffer_one)"
    by (simp_all add: Framebuffer_one_def)
  have a: "setRenderBuffer 8 0 (Some Texture_64) 5 (create 8)
       = Inr (0, Framebuffer_one\<lparr>renderBuffersSubresource := [5, 0, 0, 0, 0, 0, 0, 0]\<rparr>)"
    by (simp add: setRenderBuffer_def create_8
      Framebuffer_one_def Texture_64_def validateTargetCompatibility_def isSwapchain_def
      isEmpty_def updateSize_def Let_def)
  from setRenderBuffer_error_atomicity [OF g h(3), of 1 "Some Texture_line" 0]
  have b: "setRenderBuffer 8 1 (Some Texture_line) 0 Framebuffer_one
             = Inr (- 1, Framebuffer_one)"
    by (simp add: Texture_line_def)
  from setRenderBuffer_error_atomicity [OF g h(3), of 8 "Some Texture_64" 0]
  have c: "setRenderBuffer 8 8 (Some Texture_64) 0 Framebuffer_one
             = Inr (- 1, Framebuffer_one)"
    by simp
  from setRenderBuffer_error_atomicity [OF h, of 0 "Some Texture_64" 5] a h b c
  show ?thesis by simp
qed


section \<open>Properties of the repeated-value dictionary\<close>

subsection \<open>The invariant\<close>

lemma RepeatedValueStreamer_inv_ctor: "RepeatedValueStreamer_inv RepeatedValueStreamer_ctor"
  by (simp add: RepeatedValueStreamer_inv_def RepeatedValueStreamer_ctor_def int_fits_def)

lemma QHash_value_index: "QHash_value (QHash_index h k) k = QHash_value h k"
  by (simp add: QHash_value_def QHash_index_def split: option.splits)

lemma QHash_index_update: "(QHash_index h k)(k \<mapsto> x) = h(k \<mapsto> x)"
  by (simp add: QHash_index_def split: option.splits)

lemma QHash_index_known: "QHash_value h k \<noteq> 0 \<Longrightarrow> QHash_index h k = h"
  by (simp add: QHash_value_def QHash_index_def split: option.splits)

text \<open>The three ways in which a write returns.\<close>

lemma RepeatedValueStreamer_write_cases:
  assumes "RepeatedValueStreamer_write v (s, stream) = Inr (s', stream')"
  obtains
    (persistent) "QHash_value (persistentIDs s) v \<noteq> 0" "s' = s"
      "stream' = stream @ [IdToken (QHash_value (persistentIDs s) v)]"
  | (repeated) "QHash_value (persistentIDs s) v = 0" "QHash_value (transientOffsets s) v \<noteq> 0"
      "int_fits (lastPersistentID s + QHash_value (transientOffsets s) v)" "s' = s"
      "stream' = stream @ [IdToken (lastPersistentID s + QHash_value (transientOffsets s) v)]"
  | (new) "QHash_value (persistentIDs s) v = 0" "QHash_value (transientOffsets s) v = 0"
      "int_fits (lastTransientOffset s + 1)"
      "int_fits (lastPersistentID s + (lastTransientOffset s + 1))"
      "s' = s\<lparr>transientOffsets := (transientOffsets s)(v \<mapsto> lastTransientOffset s + 1),
               lastTransientOffset := lastTransientOffset s + 1\<rparr>"
      "stream' = stream @ [IdToken (lastPersistentID s + (lastTransientOffset s + 1)),
                           ValueToken v]"
proof (cases "QHash_value (persistentIDs s) v = 0")
  case False
  with assms have "s' = s" "stream' = stream @ [IdToken (QHash_value (persistentIDs s) v)]"
    by (auto simp: Let_def)
  with False show ?thesis by (rule persistent)
next
  case p: True
  show ?thesis
  proof (cases "QHash_value (transientOffsets s) v = 0")
    case False
    then have i: "QHash_index (transientOffsets s) v = transientOffsets s"
      by (rule QHash_index_known)
    from assms p False i
    have "int_fits (lastPersistentID s + QHash_value (transientOffsets s) v)"
      by (simp add: Let_def split: if_splits)
    moreover from assms p False i this
    have "s' = s"
      "stream' = stream @ [IdToken (lastPersistentID s + QHash_value (transientOffsets s) v)]"
      by (auto simp: Let_def)
    ultimately show ?thesis using p False by (intro repeated)
  next
    case True
    from assms p True have a: "int_fits (lastTransientOffset s + 1)"
      by (simp add: Let_def QHash_value_index split: if_splits)
    from assms p True a have b: "int_fits (lastPersistentID s + (lastTransientOffset s + 1))"
      by (simp add: Let_def QHash_value_index split: if_splits)
    from assms p True a b
    have "s' = s\<lparr>transientOffsets := (transientOffsets s)(v \<mapsto> lastTransientOffset s + 1),
               lastTransientOffset := lastTransientOffset s + 1\<rparr>"
      "stream' = stream @ [IdToken (lastPersistentID s + (lastTransientOffset s + 1)),
                           ValueToken v]"
      by (auto simp: Let_def QHash_value_index QHash_index_update)
    with p True a b show ?thesis by (intro new)
  qed
qed


lemma RepeatedValueStreamer_inv_write:
  assumes "RepeatedValueStreamer_inv s"
    and "RepeatedValueStreamer_write v (s, stream) = Inr (s', stream')"
  shows "RepeatedValueStreamer_inv s'"
  using assms(2)
proof (cases rule: RepeatedValueStreamer_write_cases)
  case persistent
  with assms(1) show ?thesis by simp
next
  case repeated
  with assms(1) show ?thesis by simp
next
  case new
  from assms(1) have r: "0 \<le> lastPersistentID s" "int_fits (lastPersistentID s)"
    "0 \<le> lastTransientOffset s"
    and t: "\<And>u n. transientOffsets s u = Some n \<Longrightarrow> 1 \<le> n \<and> n \<le> lastTransientOffset s"
    by (simp_all add: RepeatedValueStreamer_inv_def)
  have "1 \<le> n \<and> n \<le> lastTransientOffset s + 1"
    if "((transientOffsets s)(v \<mapsto> lastTransientOffset s + 1)) u = Some n" for u n
  proof (cases "u = v")
    case True
    with that r(3) show ?thesis by simp
  next
    case False
    with that have "transientOffsets s u = Some n" by simp
    from t [OF this] show ?thesis by simp
  qed
  with r new(3) show ?thesis
    unfolding new(5) RepeatedValueStreamer_inv_def by simp
qed

lemma RepeatedValueStreamer_inv_read:
  assumes "RepeatedValueStreamer_inv s" "RepeatedValueStreamer_read (s, stream) = Inr (v, s', rest)"
  shows "RepeatedValueStreamer_inv s'"
proof -
  have "s' = s \<or> (\<exists>i. s' = s\<lparr>values_hash := (values_hash s)(i \<mapsto> v)\<rparr>)"
    using assms(2) by (auto split: sum.splits option.splits)
  with assms(1) show ?thesis by (auto simp: RepeatedValueStreamer_inv_def)
qed

lemma RepeatedValueStreamer_inv_reset:
  assumes "RepeatedValueStreamer_inv s"
  shows "RepeatedValueStreamer_inv (snd (getAndResetTransientOffsets s))"
  using assms
  by (simp add: RepeatedValueStreamer_inv_def getAndResetTransientOffsets_def int_fits_def)


subsection \<open>Round trip\<close>

lemma RepeatedValueStreamer_write_append:
  "RepeatedValueStreamer_write v (s, stream)
     = (case RepeatedValueStreamer_write v (s, []) of
          Inl f \<Rightarrow> Inl f
        | Inr (s', out) \<Rightarrow> Inr (s', stream @ out))"
  by (simp add: Let_def)

lemma writeValues_append:
  "writeValues vs (s, stream)
     = (case writeValues vs (s, []) of
          Inl f \<Rightarrow> Inl f
        | Inr (s', out) \<Rightarrow> Inr (s', stream @ out))"
proof (induction vs arbitrary: s stream)
  case Nil
  show ?case by simp
next
  case (Cons v vs)
  show ?case
  proof (cases "RepeatedValueStreamer_write v (s, [])")
    case (Inl f)
    then have "RepeatedValueStreamer_write v (s, stream) = Inl f"
      using RepeatedValueStreamer_write_append [of v s stream] by simp
    with Inl show ?thesis by simp
  next
    case (Inr st)
    obtain s' out where st: "st = (s', out)" by (cases st)
    have w: "RepeatedValueStreamer_write v (s, stream) = Inr (s', stream @ out)"
      using RepeatedValueStreamer_write_append [of v s stream] Inr st by simp
    have a: "writeValues (v # vs) (s, stream) = writeValues vs (s', stream @ out)"
      using w by simp
    have b: "writeValues (v # vs) (s, []) = writeValues vs (s', out)"
      using Inr st by simp
    show ?thesis
      unfolding a b
      by (subst Cons.IH [of s' "stream @ out"], subst Cons.IH [of s' out])
         (simp split: sum.splits)
  qed
qed



lemma lockstep_step:
  assumes "lockstep w r"
    and "RepeatedValueStreamer_write v (w, []) = Inr (w', out)"
  shows "\<exists>r'. RepeatedValueStreamer_read (r, out @ rest) = Inr (v, r', rest) \<and> lockstep w' r'"
proof -
  from assms(1) have p: "QHash_value (persistentIDs w) v = 0"
    and l: "0 \<le> lastTransientOffset w"
    and b: "\<And>u n. transientOffsets w u = Some n \<Longrightarrow> 1 \<le> n \<and> n \<le> lastTransientOffset w"
    and c: "\<And>i u. values_hash r i = Some u
              \<longleftrightarrow> transientOffsets w u = Some (i - lastPersistentID w)"
    by (simp_all add: lockstep_def)
  from assms(2) show ?thesis
  proof (cases rule: RepeatedValueStreamer_write_cases)
    case persistent
    with p show ?thesis by simp
  next
    case repeated
    let ?n = "QHash_value (transientOffsets w) v"
    from repeated(2) have t: "transientOffsets w v = Some ?n"
      by (simp add: QHash_value_def split: option.splits)
    have "values_hash r (lastPersistentID w + ?n) = Some v"
      using c [of "lastPersistentID w + ?n" v] t by simp
    then have "RepeatedValueStreamer_read (r, [IdToken (lastPersistentID w + ?n)] @ rest)
                 = Inr (v, r, rest)" by simp
    with repeated assms(1) show ?thesis by simp
  next
    case new
    let ?k = "lastTransientOffset w + 1"
    let ?w' = "w\<lparr>transientOffsets := (transientOffsets w)(v \<mapsto> ?k), lastTransientOffset := ?k\<rparr>"
    let ?r' = "r\<lparr>values_hash := (values_hash r)(lastPersistentID w + ?k \<mapsto> v)\<rparr>"
    have None: "transientOffsets w v = None"
    proof (cases "transientOffsets w v")
      case (Some n)
      from b [OF Some] have "1 \<le> n" by simp
      with Some new(2) show ?thesis by (simp add: QHash_value_def)
    qed simp
    have unseen: "values_hash r (lastPersistentID w + ?k) = None"
    proof (cases "values_hash r (lastPersistentID w + ?k)")
      case (Some u)
      then have "transientOffsets w u = Some ?k" using c [of "lastPersistentID w + ?k" u] by simp
      from b [OF this] show ?thesis by simp
    qed simp
    then have rd: "RepeatedValueStreamer_read
         (r, [IdToken (lastPersistentID w + ?k), ValueToken v] @ rest) = Inr (v, ?r', rest)"
      by simp
    have "lockstep ?w' ?r'"
      unfolding lockstep_def
    proof (intro conjI allI impI)
      fix u
      show "QHash_value (persistentIDs ?w') u = 0" using assms(1) by (simp add: lockstep_def)
    next
      show "0 \<le> lastTransientOffset ?w'" using l by simp
    next
      fix u n assume "transientOffsets ?w' u = Some n"
      then have "n = ?k \<or> transientOffsets w u = Some n" by (simp split: if_splits)
      then show "1 \<le> n" using l b by fastforce
    next
      fix u n assume "transientOffsets ?w' u = Some n"
      then have "n = ?k \<or> transientOffsets w u = Some n" by (simp split: if_splits)
      then show "n \<le> lastTransientOffset ?w'" using l b by fastforce
    next
      fix i u
      show "values_hash ?r' i = Some u
              \<longleftrightarrow> transientOffsets ?w' u = Some (i - lastPersistentID ?w')"
      proof (cases "i = lastPersistentID w + ?k")
        case True
        have "transientOffsets w u \<noteq> Some ?k" using b [of u ?k] by auto
        with True show ?thesis by auto
      next
        case False
        then have ne: "i - lastPersistentID w \<noteq> ?k" by simp
        show ?thesis
        proof (cases "u = v")
          case True
          have "values_hash r i \<noteq> Some v" using c [of i v] None by simp
          with True False ne show ?thesis by simp
        next
          case False
          with \<open>i \<noteq> lastPersistentID w + ?k\<close> c [of i u] show ?thesis by simp
        qed
      qed
    qed
    with new(5,6) rd show ?thesis by auto
  qed
qed

lemma lockstep_roundtrip:
  assumes "lockstep w r"
    and "writeValues vs (w, []) = Inr (w', out)"
  shows "\<exists>r'. readValues (length vs) (r, out @ rest) = Inr (vs, r', rest) \<and> lockstep w' r'"
  using assms
proof (induction vs arbitrary: w r out)
  case Nil
  then show ?case by simp
next
  case (Cons v vs)
  from Cons.prems(2) obtain w1 out1
    where wr: "RepeatedValueStreamer_write v (w, []) = Inr (w1, out1)"
      and ws: "writeValues vs (w1, out1) = Inr (w', out)"
    by (auto split: sum.splits)
  from ws writeValues_append [of vs w1 out1]
  obtain out2 where w2: "writeValues vs (w1, []) = Inr (w', out2)" and o: "out = out1 @ out2"
    by (auto split: sum.splits)
  from lockstep_step [OF Cons.prems(1) wr, of "out2 @ rest"]
  obtain r1 where rd: "RepeatedValueStreamer_read (r, out1 @ out2 @ rest)
        = Inr (v, r1, out2 @ rest)"
    and ls: "lockstep w1 r1" by auto
  from Cons.IH [OF ls w2] obtain r' where
    rs: "readValues (length vs) (r1, out2 @ rest) = Inr (vs, r', rest)"
    and ls': "lockstep w' r'" by blast
  have "readValues (length (v # vs)) (r, out @ rest) = Inr (v # vs, r', rest)"
    using rd rs o by simp
  with ls' show ?case by auto
qed



lemma firstOccurrences_snoc:
  "firstOccurrences (vs @ [v])
     = (if v \<in> set vs then firstOccurrences vs else firstOccurrences vs @ [v])"
  by (simp add: firstOccurrences_def)

lemma set_firstOccurrences: "set (firstOccurrences vs) = set vs"
  by (simp add: firstOccurrences_def)

lemma distinct_firstOccurrences: "distinct (firstOccurrences vs)"
  by (simp add: firstOccurrences_def)

lemma fullValues_append_id:
  "fullValues (stream @ [IdToken i]) = fullValues stream"
  by (induction stream rule: fullValues.induct) simp_all

lemma fullValues_append_full:
  "fullValues (stream @ [IdToken i, ValueToken v]) = fullValues stream @ [(i, v)]"
  by (induction stream rule: fullValues.induct) simp_all

lemma writeValues_snoc:
  "writeValues (vs @ [v]) st
     = (case writeValues vs st of
          Inl f \<Rightarrow> Inl f
        | Inr st' \<Rightarrow> RepeatedValueStreamer_write v st')"
  by (induction vs arbitrary: st) (simp_all split: sum.splits)

text \<open>
  What a writer without persistent IDs and transient offsets has done after a session:
  it stops with a fault exactly when the session has more distinct values than an
  \<^verbatim>\<open>int\<close> counts.
\<close>

lemma writeValues_fresh:
  assumes "\<forall>v. QHash_value (persistentIDs w) v = 0" and "lastPersistentID w = 0"
    and "transientOffsets w = Map.empty" and "lastTransientOffset w = 0"
  shows "case writeValues vs (w, []) of
           Inl f \<Rightarrow> 2147483647 < int (length (firstOccurrences vs))
         | Inr (w', out) \<Rightarrow>
             lastTransientOffset w' = int (length (firstOccurrences vs))
             \<and> int (length (firstOccurrences vs)) \<le> 2147483647
             \<and> lastPersistentID w' = 0
             \<and> persistentIDs w' = persistentIDs w
             \<and> (\<forall>v. v \<notin> set vs \<longrightarrow> transientOffsets w' v = None)
             \<and> (\<forall>k < length (firstOccurrences vs).
                   transientOffsets w' (firstOccurrences vs ! k) = Some (int k + 1))
             \<and> map snd (fullValues out) = firstOccurrences vs
             \<and> map fst (fullValues out) = [1 .. int (length (firstOccurrences vs))]"
proof (induction vs rule: rev_induct)
  case Nil
  show ?case using assms by (simp add: firstOccurrences_def)
next
  case (snoc v vs)
  let ?fo = "firstOccurrences vs"
  show ?case
  proof (cases "writeValues vs (w, [])")
    case (Inl f)
    with snoc have "2147483647 < int (length ?fo)" by simp
    moreover have "length ?fo \<le> length (firstOccurrences (vs @ [v]))"
      by (simp add: firstOccurrences_snoc)
    ultimately have "2147483647 < int (length (firstOccurrences (vs @ [v])))" by linarith
    with Inl show ?thesis by (simp add: writeValues_snoc)
  next
    case (Inr st)
    obtain s out where st: "st = (s, out)" by (cases st)
    from snoc Inr st have n: "lastTransientOffset s = int (length ?fo)"
      and m: "int (length ?fo) \<le> 2147483647"
      and p: "lastPersistentID s = 0" "persistentIDs s = persistentIDs w"
      and fresh: "\<And>u. u \<notin> set vs \<Longrightarrow> transientOffsets s u = None"
      and tbl: "\<And>k. k < length ?fo \<Longrightarrow> transientOffsets s (?fo ! k) = Some (int k + 1)"
      and vals: "map snd (fullValues out) = ?fo"
      and ids: "map fst (fullValues out) = [1 .. int (length ?fo)]"
      by simp_all
    from assms(1) p have np: "QHash_value (persistentIDs s) v = 0" by simp
    have ws: "writeValues (vs @ [v]) (w, []) = RepeatedValueStreamer_write v (s, out)"
      using Inr st by (simp add: writeValues_snoc)
    show ?thesis
    proof (cases "v \<in> set vs")
      case True
      then have "v \<in> set ?fo" by (simp add: set_firstOccurrences)
      then obtain k where k: "k < length ?fo" "?fo ! k = v" by (auto simp: in_set_conv_nth)
      from tbl [OF k(1)] k(2) have t: "transientOffsets s v = Some (int k + 1)" by simp
      from k(1) m have f: "int_fits (int k + 1)" by (simp add: int_fits_def)
      have wr: "RepeatedValueStreamer_write v (s, out)
                  = Inr (s, out @ [IdToken (int k + 1)])"
        using np t f p(1) by (simp add: Let_def QHash_value_def QHash_index_def)
      have fo: "firstOccurrences (vs @ [v]) = ?fo" using True by (simp add: firstOccurrences_snoc)
      show ?thesis
        unfolding ws wr fo
        using n m p fresh tbl vals ids by (simp add: fullValues_append_id)
    next
      case False
      then have t: "transientOffsets s v = None" by (rule fresh)
      have fo: "firstOccurrences (vs @ [v]) = ?fo @ [v]"
        using False by (simp add: firstOccurrences_snoc)
      show ?thesis
      proof (cases "int (length ?fo) + 1 \<le> 2147483647")
        case over: False
        then have "\<not> int_fits (lastTransientOffset s + 1)" using n by (simp add: int_fits_def)
        then have wr: "RepeatedValueStreamer_write v (s, out) = Inl SignedOverflow"
          using np t by (simp add: Let_def QHash_value_def QHash_index_def)
        show ?thesis unfolding ws wr fo using over by simp
      next
        case fits: True
        let ?k = "lastTransientOffset s + 1"
        let ?s' = "s\<lparr>transientOffsets := (transientOffsets s)(v \<mapsto> ?k), lastTransientOffset := ?k\<rparr>"
        from fits n have f: "int_fits ?k" "int_fits (lastPersistentID s + ?k)"
          using p(1) by (simp_all add: int_fits_def)
        have wr: "RepeatedValueStreamer_write v (s, out)
                    = Inr (?s', out @ [IdToken ?k, ValueToken v])"
          using np t f p(1) by (simp add: Let_def QHash_value_def QHash_index_def)
        have nin: "v \<notin> set ?fo" using False by (simp add: set_firstOccurrences)
        have a: "\<forall>u. u \<notin> set (vs @ [v]) \<longrightarrow> transientOffsets ?s' u = None"
          using fresh by simp
        have b: "\<forall>k < length (?fo @ [v]).
                   transientOffsets ?s' ((?fo @ [v]) ! k) = Some (int k + 1)"
        proof (intro allI impI)
          fix k assume "k < length (?fo @ [v])"
          then consider "k < length ?fo" | "k = length ?fo" by fastforce
          then show "transientOffsets ?s' ((?fo @ [v]) ! k) = Some (int k + 1)"
          proof cases
            case 1
            then have "?fo ! k \<noteq> v" using nin by (metis nth_mem)
            with 1 tbl [OF 1] show ?thesis by (simp add: nth_append)
          next
            case 2
            then show ?thesis using n by (simp add: nth_append)
          qed
        qed
        have c: "[1 .. int (length (?fo @ [v]))] = [1 .. int (length ?fo)] @ [?k]"
          using n by (simp add: upto_rec2)
        have d: "int (length (?fo @ [v])) \<le> 2147483647" using fits by simp
        show ?thesis
          unfolding ws wr fo
          using n p a b c d vals ids by (simp add: fullValues_append_full)
      qed
    qed
  qed
qed

lemma lockstep_ctor: "lockstep RepeatedValueStreamer_ctor RepeatedValueStreamer_ctor"
  by (simp add: lockstep_def RepeatedValueStreamer_ctor_def QHash_value_def)

text \<open>
  C1. Round trip and lock-step of the dictionary: whatever sequence of values a fresh
  writer streams, values repeating in any order, a fresh reader given the resulting
  channel returns exactly that sequence and leaves nothing unread. The Nth distinct
  value written is the one that follows the Nth ID the reader has not seen before, that
  ID is N, the reader reads the full value there and caches it under that ID, and the
  writer holds the same number as the value's offset. The only sessions that do not get
  that far are those with more distinct values than an \<^verbatim>\<open>int\<close> counts, where the
  writer's counter overflows.
\<close>

theorem roundtrip_lockstep:
  "case writeValues vs (RepeatedValueStreamer_ctor, []) of
     Inl f \<Rightarrow> 2147483647 < int (length (firstOccurrences vs))
   | Inr (w, stream) \<Rightarrow>
       int (length (firstOccurrences vs)) \<le> 2147483647 \<and>
       (case readValues (length vs) (RepeatedValueStreamer_ctor, stream) of
          Inl e \<Rightarrow> False
        | Inr (out, r, rest) \<Rightarrow>
            out = vs \<and> rest = []
            \<and> map snd (fullValues stream) = firstOccurrences vs
            \<and> map fst (fullValues stream) = [1 .. int (length (firstOccurrences vs))]
            \<and> (\<forall>k < length (firstOccurrences vs).
                  transientOffsets w (firstOccurrences vs ! k) = Some (int k + 1)
                  \<and> values_hash r (int k + 1) = Some (firstOccurrences vs ! k))
            \<and> dom (values_hash r) = {1 .. int (length (firstOccurrences vs))})"
proof -
  let ?c = "RepeatedValueStreamer_ctor :: 'a RepeatedValueStreamer"
  let ?fo = "firstOccurrences vs"
  have fr: "\<forall>v. QHash_value (persistentIDs ?c) v = 0" "lastPersistentID ?c = 0"
    "transientOffsets ?c = Map.empty" "lastTransientOffset ?c = 0"
    by (simp_all add: RepeatedValueStreamer_ctor_def QHash_value_def)
  note fresh = writeValues_fresh [OF fr, of vs]
  show ?thesis
  proof (cases "writeValues vs (?c, [])")
    case (Inl f)
    with fresh show ?thesis by simp
  next
    case (Inr st)
    obtain w stream where st: "st = (w, stream)" by (cases st)
    from Inr st have ws: "writeValues vs (?c, []) = Inr (w, stream)" by simp
    from lockstep_roundtrip [OF lockstep_ctor ws, of "[]"]
    obtain r where rd: "readValues (length vs) (?c, stream) = Inr (vs, r, [])"
      and ls: "lockstep w r" by auto
    from fresh ws
    have n: "lastTransientOffset w = int (length ?fo)"
      and m: "int (length ?fo) \<le> 2147483647"
      and p: "lastPersistentID w = 0"
      and tbl: "\<And>k. k < length ?fo \<Longrightarrow> transientOffsets w (?fo ! k) = Some (int k + 1)"
      and vals: "map snd (fullValues stream) = ?fo"
      and ids: "map fst (fullValues stream) = [1 .. int (length ?fo)]"
      by simp_all
    from ls p have c: "\<And>i u. values_hash r i = Some u \<longleftrightarrow> transientOffsets w u = Some i"
      and b: "\<And>u m. transientOffsets w u = Some m \<Longrightarrow> 1 \<le> m \<and> m \<le> lastTransientOffset w"
      by (simp_all add: lockstep_def)
    have cache: "\<forall>k < length ?fo.
          transientOffsets w (?fo ! k) = Some (int k + 1)
          \<and> values_hash r (int k + 1) = Some (?fo ! k)"
      using tbl c by simp
    have "dom (values_hash r) = {1 .. int (length ?fo)}"
    proof (rule set_eqI)
      fix i
      show "i \<in> dom (values_hash r) \<longleftrightarrow> i \<in> {1 .. int (length ?fo)}"
      proof
        assume "i \<in> dom (values_hash r)"
        then obtain u where "values_hash r i = Some u" by auto
        then have "transientOffsets w u = Some i" by (simp add: c)
        from b [OF this] n show "i \<in> {1 .. int (length ?fo)}" by simp
      next
        assume i: "i \<in> {1 .. int (length ?fo)}"
        then have k: "nat (i - 1) < length ?fo" and e: "int (nat (i - 1)) + 1 = i" by auto
        from cache k have "values_hash r (int (nat (i - 1)) + 1) = Some (?fo ! nat (i - 1))"
          by blast
        with e show "i \<in> dom (values_hash r)" by auto
      qed
    qed
    with ws rd vals ids cache m show ?thesis by simp
  qed
qed

lemma writeValues_ABACB:
  "writeValues [''A'', ''B'', ''A'', ''C'', ''B''] (RepeatedValueStreamer_ctor, [])
     = Inr (Writer_ABACB, Stream_ABACB)"
  by (simp add: RepeatedValueStreamer_ctor_def Writer_ABACB_def Stream_ABACB_def
      Let_def QHash_value_def QHash_index_def int_fits_def)

lemma readValues_ABACB:
  "readValues (length [''A'', ''B'', ''A'', ''C'', ''B'']) (RepeatedValueStreamer_ctor, Stream_ABACB)
     = Inr ([''A'', ''B'', ''A'', ''C'', ''B''], Reader_ABACB, [])"
  by (simp add: RepeatedValueStreamer_ctor_def Reader_ABACB_def Stream_ABACB_def)

lemma firstOccurrences_ABACB:
  "firstOccurrences [''A'', ''B'', ''A'', ''C'', ''B''] = [''A'', ''B'', ''C'']"
  by (simp add: firstOccurrences_def)

theorem roundtrip_lockstep_witness:
  "writeValues [''A'', ''B'', ''A'', ''C'', ''B''] (RepeatedValueStreamer_ctor, [])
     = Inr (Writer_ABACB, Stream_ABACB)
   \<and> readValues (length [''A'', ''B'', ''A'', ''C'', ''B'']) (RepeatedValueStreamer_ctor, Stream_ABACB)
     = Inr ([''A'', ''B'', ''A'', ''C'', ''B''], Reader_ABACB, [])
   \<and> fullValues Stream_ABACB = [(1, ''A''), (2, ''B''), (3, ''C'')]
   \<and> (2 :: nat) < length (firstOccurrences [''A'', ''B'', ''A'', ''C'', ''B''])
   \<and> firstOccurrences [''A'', ''B'', ''A'', ''C'', ''B''] ! 2 = ''C''
   \<and> transientOffsets Writer_ABACB ''C'' = Some 3
   \<and> values_hash Reader_ABACB 3 = Some ''C''
   \<and> dom (values_hash Reader_ABACB) = {1 .. 3}"
proof -
  have k: "(2 :: nat) < length (firstOccurrences [''A'', ''B'', ''A'', ''C'', ''B''])"
    "firstOccurrences [''A'', ''B'', ''A'', ''C'', ''B''] ! 2 = ''C''"
    by (simp_all add: firstOccurrences_ABACB)
  have f: "fullValues Stream_ABACB = [(1, ''A''), (2, ''B''), (3, ''C'')]"
    by (simp add: Stream_ABACB_def)
  have "case writeValues [''A'', ''B'', ''A'', ''C'', ''B''] (RepeatedValueStreamer_ctor, []) of
     Inl f \<Rightarrow> 2147483647 < int (length (firstOccurrences [''A'', ''B'', ''A'', ''C'', ''B'']))
   | Inr (w, stream) \<Rightarrow>
       int (length (firstOccurrences [''A'', ''B'', ''A'', ''C'', ''B''])) \<le> 2147483647 \<and>
       (case readValues (length [''A'', ''B'', ''A'', ''C'', ''B''])
               (RepeatedValueStreamer_ctor, stream) of
          Inl e \<Rightarrow> False
        | Inr (out, r, rest) \<Rightarrow>
            out = [''A'', ''B'', ''A'', ''C'', ''B''] \<and> rest = []
            \<and> map snd (fullValues stream) = firstOccurrences [''A'', ''B'', ''A'', ''C'', ''B'']
            \<and> map fst (fullValues stream)
                = [1 .. int (length (firstOccurrences [''A'', ''B'', ''A'', ''C'', ''B'']))]
            \<and> (\<forall>k < length (firstOccurrences [''A'', ''B'', ''A'', ''C'', ''B'']).
                  transientOffsets w (firstOccurrences [''A'', ''B'', ''A'', ''C'', ''B''] ! k)
                    = Some (int k + 1)
                  \<and> values_hash r (int k + 1)
                    = Some (firstOccurrences [''A'', ''B'', ''A'', ''C'', ''B''] ! k))
            \<and> dom (values_hash r)
                = {1 .. int (length (firstOccurrences [''A'', ''B'', ''A'', ''C'', ''B'']))})"
    by (rule roundtrip_lockstep)
  then have q: "\<forall>k < length (firstOccurrences [''A'', ''B'', ''A'', ''C'', ''B'']).
          transientOffsets Writer_ABACB (firstOccurrences [''A'', ''B'', ''A'', ''C'', ''B''] ! k)
            = Some (int k + 1)
          \<and> values_hash Reader_ABACB (int k + 1)
            = Some (firstOccurrences [''A'', ''B'', ''A'', ''C'', ''B''] ! k)"
    and d: "dom (values_hash Reader_ABACB)
              = {1 .. int (length (firstOccurrences [''A'', ''B'', ''A'', ''C'', ''B'']))}"
    unfolding writeValues_ABACB readValues_ABACB prod.case sum.case by blast+
  from q k have "transientOffsets Writer_ABACB ''C'' = Some 3
      \<and> values_hash Reader_ABACB 3 = Some ''C''" by fastforce
  moreover from d have "dom (values_hash Reader_ABACB) = {1 .. 3}"
    by (simp add: firstOccurrences_ABACB)
  ultimately show ?thesis
    using writeValues_ABACB readValues_ABACB k f by blast
qed


subsection \<open>Width of the IDs\<close>

lemma IDStreamer_bits_log:
  assumes "- 1 \<le> highestAssignedId c"
  shows "IDStreamer_bits c = nat \<lceil>log 2 (real_of_int (highestAssignedId c + 2))\<rceil>"
proof -
  from assms have p: "0 < nat (highestAssignedId c + 2)" by simp
  from assms have "real (nat (highestAssignedId c + 2)) = real_of_int (highestAssignedId c + 2)"
    by simp
  with p show ?thesis by (simp add: IDStreamer_bits_def ceillog2_def)
qed

lemma IDStreamer_roundtrip:
  assumes "0 \<le> i" and "i \<le> highestAssignedId c + 1"
  shows "IDStreamer_read (c, snd (IDStreamer_write i (c, [])) @ rest)
           = Inr (i, fst (IDStreamer_write i (c, [])), rest)"
proof -
  let ?n = "IDStreamer_bits c"
  have "nat (highestAssignedId c + 2) \<le> 2 ^ ?n"
    unfolding IDStreamer_bits_def by (rule le_two_power_ceillog2)
  then have "int (nat (highestAssignedId c + 2)) \<le> int (2 ^ ?n)"
    by (rule iffD2 [OF of_nat_le_iff])
  with assms have "i < 2 ^ ?n" by simp
  with assms(1) have "take_bit ?n i = i" by (simp add: take_bit_int_eq_self)
  then have "horner_sum of_bool 2 (map (bit i) [0..<?n]) = i"
    by (simp add: horner_sum_bit_eq_take_bit)
  then show ?thesis by (simp add: Let_def)
qed

text \<open>
  C2. Minimal width of an ID: when the highest assigned ID is \<open>k\<close>, writing an ID puts
  exactly \<open>ceil(log2(k + 2))\<close> bits on the channel and reading one takes exactly as
  many; an ID that was assigned before leaves the coder, and so the width, as it is.
  Writing the IDs 0, 1, 2, 3, 4 in this order to a new coder takes 0, 1, 2, 2 and 3 bits.
\<close>

theorem IDStreamer_minimal_width:
  assumes "- 1 \<le> highestAssignedId c"
  shows "length (snd (IDStreamer_write i (c, bs)))
           = length bs + nat \<lceil>log 2 (real_of_int (highestAssignedId c + 2))\<rceil>
       \<and> (case IDStreamer_read (c, bs) of
             Inl e \<Rightarrow> length bs < nat \<lceil>log 2 (real_of_int (highestAssignedId c + 2))\<rceil>
           | Inr (j, c', rest) \<Rightarrow>
               length bs = length rest + nat \<lceil>log 2 (real_of_int (highestAssignedId c + 2))\<rceil>)
       \<and> (i \<le> highestAssignedId c \<longrightarrow> fst (IDStreamer_write i (c, bs)) = c)
       \<and> IDStreamer_widths [0, 1, 2, 3, 4] (IDStreamer_ctor, []) = [0, 1, 2, 2, 3]"
proof (intro conjI impI)
  note w = IDStreamer_bits_log [OF assms, symmetric]
  show "length (snd (IDStreamer_write i (c, bs)))
           = length bs + nat \<lceil>log 2 (real_of_int (highestAssignedId c + 2))\<rceil>"
    unfolding w by simp
  show "case IDStreamer_read (c, bs) of
             Inl e \<Rightarrow> length bs < nat \<lceil>log 2 (real_of_int (highestAssignedId c + 2))\<rceil>
           | Inr (j, c', rest) \<Rightarrow>
               length bs = length rest + nat \<lceil>log 2 (real_of_int (highestAssignedId c + 2))\<rceil>"
    unfolding w by (simp add: Let_def)
  show "IDStreamer_widths [0, 1, 2, 3, 4] (IDStreamer_ctor, []) = [0, 1, 2, 2, 3]"
    by (simp add: IDStreamer_ctor_def IDStreamer_bits_def IDStreamer_advance_def Let_def
        ceillog2_rec)
next
  assume "i \<le> highestAssignedId c"
  then show "fst (IDStreamer_write i (c, bs)) = c"
    by (simp add: IDStreamer_advance_def)
qed

theorem IDStreamer_minimal_width_witness:
  "- 1 \<le> highestAssignedId \<lparr>highestAssignedId = 3\<rparr>
   \<and> length (snd (IDStreamer_write 4 (\<lparr>highestAssignedId = 3\<rparr>, []))) = 3
   \<and> nat \<lceil>log 2 (real_of_int (highestAssignedId \<lparr>highestAssignedId = 3\<rparr> + 2))\<rceil> = 3
   \<and> fst (IDStreamer_write 2 (\<lparr>highestAssignedId = 3\<rparr>, [])) = \<lparr>highestAssignedId = 3\<rparr>
   \<and> IDStreamer_widths [0, 1, 2, 3, 4] (IDStreamer_ctor, []) = [0, 1, 2, 2, 3]"
proof -
  have h: "- 1 \<le> highestAssignedId \<lparr>highestAssignedId = 3\<rparr>" by simp
  have l: "length (snd (IDStreamer_write 4 (\<lparr>highestAssignedId = 3\<rparr>, []))) = 3"
    by (simp add: IDStreamer_bits_def ceillog2_rec)
  have r: "(2 :: int) \<le> highestAssignedId \<lparr>highestAssignedId = 3\<rparr>" by simp
  note t = IDStreamer_minimal_width [OF h, of 4 "[]"]
  note u = IDStreamer_minimal_width [OF h, of 2 "[]"]
  from t l have "nat \<lceil>log 2 (real_of_int (highestAssignedId \<lparr>highestAssignedId = 3\<rparr> + 2))\<rceil> = 3"
    by simp
  moreover from u r have "fst (IDStreamer_write 2 (\<lparr>highestAssignedId = 3\<rparr>, []))
      = \<lparr>highestAssignedId = 3\<rparr>" by blast
  moreover from t have "IDStreamer_widths [0, 1, 2, 3, 4] (IDStreamer_ctor, []) = [0, 1, 2, 2, 3]"
    by blast
  ultimately show ?thesis using h l by blast
qed

subsection \<open>Writing\<close>

lemma RepeatedValueStreamer_write_fault:
  assumes "RepeatedValueStreamer_write v (s, stream) = Inl f"
  shows "QHash_value (persistentIDs s) v = 0
       \<and> (if QHash_value (transientOffsets s) v = 0
          then \<not> int_fits (lastTransientOffset s + 1)
               \<or> \<not> int_fits (lastPersistentID s + (lastTransientOffset s + 1))
          else \<not> int_fits (lastPersistentID s + QHash_value (transientOffsets s) v))"
proof (cases "QHash_value (transientOffsets s) v = 0")
  case True
  with assms show ?thesis
    by (auto simp: Let_def QHash_value_index split: if_splits)
next
  case False
  then have "QHash_index (transientOffsets s) v = transientOffsets s"
    by (rule QHash_index_known)
  with assms False show ?thesis
    by (auto simp: Let_def split: if_splits)
qed

lemma streamCoder_append:
  "streamCoder c (xs @ ys) = streamCoder (streamCoder c xs) ys"
  by (induction c xs rule: streamCoder.induct) simp_all

text \<open>
  The coder of a streamer stays as it was made: the streamer sends no ID 0, and a new
  coder advances on nothing else.
\<close>

lemma IDStreamer_ctor_stays:
  "i \<noteq> 0 \<Longrightarrow> IDStreamer_advance i IDStreamer_ctor = IDStreamer_ctor"
  by (simp add: IDStreamer_advance_def IDStreamer_ctor_def)

lemma RepeatedValueStreamer_write_coder:
  assumes "RepeatedValueStreamer_inv s"
    and "RepeatedValueStreamer_write v (s, []) = Inr (s', out)"
  shows "streamCoder IDStreamer_ctor out = IDStreamer_ctor"
proof -
  from assms(1) have r: "0 \<le> lastPersistentID s" "0 \<le> lastTransientOffset s"
    and t: "\<And>u n. transientOffsets s u = Some n \<Longrightarrow> 1 \<le> n"
    by (simp_all add: RepeatedValueStreamer_inv_def)
  from assms(2) show ?thesis
  proof (cases rule: RepeatedValueStreamer_write_cases)
    case persistent
    then show ?thesis by (simp add: IDStreamer_ctor_stays)
  next
    case repeated
    from repeated(2) have "transientOffsets s v = Some (QHash_value (transientOffsets s) v)"
      by (simp add: QHash_value_def split: option.splits)
    from t [OF this] r have "lastPersistentID s + QHash_value (transientOffsets s) v \<noteq> 0"
      by simp
    with repeated show ?thesis by (simp add: IDStreamer_ctor_stays)
  next
    case new
    from r have "lastPersistentID s + (lastTransientOffset s + 1) \<noteq> 0" by simp
    with new show ?thesis by (simp add: IDStreamer_ctor_stays)
  qed
qed

lemma writeValues_coder:
  assumes "RepeatedValueStreamer_inv s"
    and "writeValues vs (s, []) = Inr (s', out)"
  shows "streamCoder IDStreamer_ctor out = IDStreamer_ctor"
  using assms
proof (induction vs arbitrary: s out)
  case Nil
  then show ?case by simp
next
  case (Cons v vs)
  from Cons.prems(2) obtain s1 out1
    where wr: "RepeatedValueStreamer_write v (s, []) = Inr (s1, out1)"
      and ws: "writeValues vs (s1, out1) = Inr (s', out)"
    by (auto split: sum.splits)
  from ws writeValues_append [of vs s1 out1]
  obtain out2 where w2: "writeValues vs (s1, []) = Inr (s', out2)" and o: "out = out1 @ out2"
    by (auto split: sum.splits)
  from RepeatedValueStreamer_inv_write [OF Cons.prems(1) wr]
  have "RepeatedValueStreamer_inv s1" .
  from Cons.IH [OF this w2] RepeatedValueStreamer_write_coder [OF Cons.prems(1) wr] o
  show ?case by (simp add: streamCoder_append)
qed




text \<open>
  C4, as amended. A value whose entry in the persistent-ID table is not 0 is written as
  that ID alone: no value follows it, and the streamer, with its table of transient
  offsets and its transient counter, is unchanged.
\<close>

theorem persistent_precedence:
  assumes "persistentIDs s v = Some i" and "i \<noteq> 0"
  shows "RepeatedValueStreamer_write v (s, stream) = Inr (s, stream @ [IdToken i])"
  using assms by (simp add: QHash_value_def)

theorem persistent_precedence_witness:
  "persistentIDs Streamer_entry ''A'' = Some 7 \<and> (7 :: int) \<noteq> 0
   \<and> RepeatedValueStreamer_write ''A'' (Streamer_entry, []) = Inr (Streamer_entry, [IdToken 7])"
proof -
  have h: "persistentIDs Streamer_entry ''A'' = Some 7" "(7 :: int) \<noteq> 0"
    by (simp_all add: Streamer_entry_def)
  from persistent_precedence [OF h, of "[]"] h show ?thesis by simp
qed

text \<open>
  C4 as stated fails for a value whose entry in the persistent-ID table is 0: the write
  hands out the transient offset 1 and emits the full value.
\<close>

theorem persistent_precedence_zero_entry:
  "persistentIDs Streamer_zero_entry ''A'' = Some 0
   \<and> transientOffsets Streamer_zero_entry ''A'' = None
   \<and> lastTransientOffset Streamer_zero_entry = 0
   \<and> RepeatedValueStreamer_write ''A'' (Streamer_zero_entry, [])
       = Inr (Streamer_zero_entry\<lparr>lastTransientOffset := 1, transientOffsets := [''A'' \<mapsto> 1]\<rparr>,
              [IdToken 1, ValueToken ''A''])
   \<and> RepeatedValueStreamer_write ''A'' (Streamer_zero_entry, [])
       \<noteq> Inr (Streamer_zero_entry, [IdToken 0])"
  by (simp add: Streamer_zero_entry_def RepeatedValueStreamer_ctor_def Let_def QHash_value_def
      QHash_index_def int_fits_def)


text \<open>
  C5. Transient harvest: from a streamer with no persistent IDs, no transient offsets
  and the transient counter at zero, writing \<open>A\<close> (new), \<open>B\<close> (new) and \<open>A\<close> again and
  then calling \<^verbatim>\<open>getAndResetTransientOffsets()\<close> returns exactly the mapping of \<open>A\<close> to 1
  and \<open>B\<close> to 2; a second call before any write returns the empty mapping. The writes
  return unless adding the offset 1 or 2 to \<^verbatim>\<open>_lastPersistentID\<close> overflows.
\<close>

theorem transient_harvest:
  assumes "A \<noteq> B" and "persistentIDs s = Map.empty"
    and "transientOffsets s = Map.empty" and "lastTransientOffset s = 0"
  shows "case writeValues [A, B, A] (s, stream) of
           Inl f \<Rightarrow> \<not> (int_fits (lastPersistentID s + 1) \<and> int_fits (lastPersistentID s + 2))
         | Inr (s', stream') \<Rightarrow>
             int_fits (lastPersistentID s + 1) \<and> int_fits (lastPersistentID s + 2)
             \<and> fst (getAndResetTransientOffsets s') = [A \<mapsto> 1, B \<mapsto> 2]
             \<and> fst (getAndResetTransientOffsets (snd (getAndResetTransientOffsets s')))
                 = Map.empty"
proof -
  have f: "int_fits 1" "int_fits 2" by (simp_all add: int_fits_def)
  let ?s1 = "s\<lparr>transientOffsets := [A \<mapsto> 1], lastTransientOffset := 1\<rparr>"
  let ?s2 = "s\<lparr>transientOffsets := [A \<mapsto> 1, B \<mapsto> 2], lastTransientOffset := 2\<rparr>"
  have w1: "RepeatedValueStreamer_write A (s, stream)
      = (if int_fits (lastPersistentID s + 1)
         then Inr (?s1, stream @ [IdToken (lastPersistentID s + 1), ValueToken A])
         else Inl SignedOverflow)"
    using assms f by (simp add: Let_def QHash_value_def QHash_index_def)
  have w2: "RepeatedValueStreamer_write B (?s1, st)
      = (if int_fits (lastPersistentID s + 2)
         then Inr (?s2, st @ [IdToken (lastPersistentID s + 2), ValueToken B])
         else Inl SignedOverflow)" for st
    using assms f by (simp add: Let_def QHash_value_def QHash_index_def)
  have w3: "RepeatedValueStreamer_write A (?s2, st)
      = (if int_fits (lastPersistentID s + 1)
         then Inr (?s2, st @ [IdToken (lastPersistentID s + 1)])
         else Inl SignedOverflow)" for st
    using assms f by (simp add: Let_def QHash_value_def QHash_index_def)
  show ?thesis
    by (simp add: w1 w2 w3 getAndResetTransientOffsets_def
        del: RepeatedValueStreamer_write.simps)
qed

theorem transient_harvest_witness:
  "''A'' \<noteq> ''B''
   \<and> persistentIDs (RepeatedValueStreamer_ctor :: string RepeatedValueStreamer) = Map.empty
   \<and> transientOffsets (RepeatedValueStreamer_ctor :: string RepeatedValueStreamer) = Map.empty
   \<and> lastTransientOffset (RepeatedValueStreamer_ctor :: string RepeatedValueStreamer) = 0
   \<and> writeValues [''A'', ''B'', ''A''] (RepeatedValueStreamer_ctor, [])
        = Inr (Writer_ABA, [IdToken 1, ValueToken ''A'', IdToken 2, ValueToken ''B'', IdToken 1])
   \<and> fst (getAndResetTransientOffsets Writer_ABA) = [''A'' \<mapsto> 1, ''B'' \<mapsto> 2]
   \<and> fst (getAndResetTransientOffsets (snd (getAndResetTransientOffsets Writer_ABA)))
        = Map.empty"
proof -
  let ?c = "RepeatedValueStreamer_ctor :: string RepeatedValueStreamer"
  have h: "''A'' \<noteq> ''B''"
    "persistentIDs ?c = Map.empty" "transientOffsets ?c = Map.empty"
    "lastTransientOffset ?c = 0"
    by (simp_all add: RepeatedValueStreamer_ctor_def)
  have w: "writeValues [''A'', ''B'', ''A''] (?c, [])
        = Inr (Writer_ABA, [IdToken 1, ValueToken ''A'', IdToken 2, ValueToken ''B'', IdToken 1])"
    by (simp add: RepeatedValueStreamer_ctor_def Writer_ABA_def Let_def QHash_value_def
        QHash_index_def int_fits_def)
  from transient_harvest [OF h, of "[]"]
  have "fst (getAndResetTransientOffsets Writer_ABA) = [''A'' \<mapsto> 1, ''B'' \<mapsto> 2]
      \<and> fst (getAndResetTransientOffsets (snd (getAndResetTransientOffsets Writer_ABA)))
           = Map.empty"
    unfolding w sum.case prod.case by blast
  with h w show ?thesis by blast
qed

text \<open>
  C6. Frame of the harvest: \<^verbatim>\<open>getAndResetTransientOffsets()\<close> returns the table of
  transient offsets, leaves that table empty and the transient counter at zero, and does
  not change the persistent-ID table, the last persistent ID or the cache of values read.
\<close>

theorem getAndResetTransientOffsets_frame:
  "fst (getAndResetTransientOffsets s) = transientOffsets s
   \<and> transientOffsets (snd (getAndResetTransientOffsets s)) = Map.empty
   \<and> lastTransientOffset (snd (getAndResetTransientOffsets s)) = 0
   \<and> persistentIDs (snd (getAndResetTransientOffsets s)) = persistentIDs s
   \<and> lastPersistentID (snd (getAndResetTransientOffsets s)) = lastPersistentID s
   \<and> values_hash (snd (getAndResetTransientOffsets s)) = values_hash s"
  by (simp add: getAndResetTransientOffsets_def)

text \<open>
  C8. Zero means absent: a value registered with the persistent ID 0 is streamed exactly
  as if it were not registered. For a value whose persistent lookup gives 0, a write
  that returns leaves a transient offset of at least 1 in the table (a new one is the
  counter plus one), the emitted combined ID is at least the last persistent ID plus 1
  and is not 0, and the full value follows the ID exactly when the value had no offset
  before. The write does not return only when the combined ID is beyond the largest
  \<^verbatim>\<open>int\<close>; no offset is handed out then.
\<close>

theorem zero_is_absent:
  assumes "RepeatedValueStreamer_inv s"
  shows "(persistentIDs s v = Some 0 \<longrightarrow>
            RepeatedValueStreamer_write v (s, stream)
              = (case RepeatedValueStreamer_write v
                        (s\<lparr>persistentIDs := (persistentIDs s)(v := None)\<rparr>, stream) of
                   Inl f \<Rightarrow> Inl f
                 | Inr (u, out) \<Rightarrow> Inr (u\<lparr>persistentIDs := persistentIDs s\<rparr>, out)))
       \<and> (QHash_value (persistentIDs s) v = 0 \<longrightarrow>
            (case RepeatedValueStreamer_write v (s, stream) of
               Inl f \<Rightarrow>
                 2147483647 < lastPersistentID s
                     + (if QHash_value (transientOffsets s) v = 0 then lastTransientOffset s + 1
                        else QHash_value (transientOffsets s) v)
             | Inr (s', stream') \<Rightarrow>
                 1 \<le> QHash_value (transientOffsets s') v
                 \<and> lastPersistentID s + 1 \<le> lastPersistentID s + QHash_value (transientOffsets s') v
                 \<and> lastPersistentID s + QHash_value (transientOffsets s') v \<noteq> 0
                 \<and> lastPersistentID s + QHash_value (transientOffsets s') v \<le> 2147483647
                 \<and> stream' = stream
                      @ IdToken (lastPersistentID s + QHash_value (transientOffsets s') v)
                      # (if QHash_value (transientOffsets s) v = 0 then [ValueToken v] else [])
                 \<and> (QHash_value (transientOffsets s) v = 0 \<longrightarrow>
                      QHash_value (transientOffsets s') v = lastTransientOffset s + 1)))"
proof (intro conjI impI)
  assume "persistentIDs s v = Some 0"
  then show "RepeatedValueStreamer_write v (s, stream)
              = (case RepeatedValueStreamer_write v
                        (s\<lparr>persistentIDs := (persistentIDs s)(v := None)\<rparr>, stream) of
                   Inl f \<Rightarrow> Inl f
                 | Inr (u, out) \<Rightarrow> Inr (u\<lparr>persistentIDs := persistentIDs s\<rparr>, out))"
    by (simp add: QHash_value_def Let_def)
next
  assume p: "QHash_value (persistentIDs s) v = 0"
  from assms have i: "0 \<le> lastPersistentID s" "0 \<le> lastTransientOffset s"
    and t: "\<And>n. transientOffsets s v = Some n \<Longrightarrow> 1 \<le> n"
    by (simp_all add: RepeatedValueStreamer_inv_def)
  have pos: "1 \<le> QHash_value (transientOffsets s) v" if "QHash_value (transientOffsets s) v \<noteq> 0"
  proof -
    from that have "transientOffsets s v = Some (QHash_value (transientOffsets s) v)"
      by (simp add: QHash_value_def split: option.splits)
    from t [OF this] show ?thesis .
  qed
  show "case RepeatedValueStreamer_write v (s, stream) of
               Inl f \<Rightarrow>
                 2147483647 < lastPersistentID s
                     + (if QHash_value (transientOffsets s) v = 0 then lastTransientOffset s + 1
                        else QHash_value (transientOffsets s) v)
             | Inr (s', stream') \<Rightarrow>
                 1 \<le> QHash_value (transientOffsets s') v
                 \<and> lastPersistentID s + 1 \<le> lastPersistentID s + QHash_value (transientOffsets s') v
                 \<and> lastPersistentID s + QHash_value (transientOffsets s') v \<noteq> 0
                 \<and> lastPersistentID s + QHash_value (transientOffsets s') v \<le> 2147483647
                 \<and> stream' = stream
                      @ IdToken (lastPersistentID s + QHash_value (transientOffsets s') v)
                      # (if QHash_value (transientOffsets s) v = 0 then [ValueToken v] else [])
                 \<and> (QHash_value (transientOffsets s) v = 0 \<longrightarrow>
                      QHash_value (transientOffsets s') v = lastTransientOffset s + 1)"
  proof (cases "RepeatedValueStreamer_write v (s, stream)")
    case (Inl f)
    from RepeatedValueStreamer_write_fault [OF Inl] i pos
    have "2147483647 < lastPersistentID s
                     + (if QHash_value (transientOffsets s) v = 0 then lastTransientOffset s + 1
                        else QHash_value (transientOffsets s) v)"
      by (auto simp: int_fits_def split: if_splits)
    with Inl show ?thesis by simp
  next
    case (Inr st)
    obtain s' stream' where st: "st = (s', stream')" by (cases st)
    from Inr st have w: "RepeatedValueStreamer_write v (s, stream) = Inr (s', stream')" by simp
    from w show ?thesis
    proof (cases rule: RepeatedValueStreamer_write_cases)
      case persistent
      with p show ?thesis by simp
    next
      case repeated
      with pos i w show ?thesis by (simp add: int_fits_def)
    next
      case new
      with i w show ?thesis by (simp add: int_fits_def QHash_value_def)
    qed
  qed
qed

theorem zero_is_absent_witness:
  "RepeatedValueStreamer_inv Streamer_zero_entry
   \<and> persistentIDs Streamer_zero_entry ''A'' = Some 0
   \<and> QHash_value (persistentIDs Streamer_zero_entry) ''A'' = 0
   \<and> QHash_value (transientOffsets Streamer_zero_entry) ''A'' = 0
   \<and> RepeatedValueStreamer_write ''A'' (Streamer_zero_entry, [])
       = Inr (Streamer_zero_entry\<lparr>lastTransientOffset := 1, transientOffsets := [''A'' \<mapsto> 1]\<rparr>,
              [IdToken 1, ValueToken ''A''])
   \<and> RepeatedValueStreamer_write ''A'' (RepeatedValueStreamer_ctor, [])
       = Inr (RepeatedValueStreamer_ctor\<lparr>lastTransientOffset := 1,
                transientOffsets := [''A'' \<mapsto> 1]\<rparr>,
              [IdToken 1, ValueToken ''A''])
   \<and> 1 \<le> QHash_value (transientOffsets
              (Streamer_zero_entry\<lparr>lastTransientOffset := 1,
                 transientOffsets := [''A'' \<mapsto> 1]\<rparr>)) ''A''"
proof -
  have h: "RepeatedValueStreamer_inv Streamer_zero_entry"
    by (simp add: RepeatedValueStreamer_inv_def Streamer_zero_entry_def
        RepeatedValueStreamer_ctor_def int_fits_def)
  have e: "persistentIDs Streamer_zero_entry ''A'' = Some 0"
    "QHash_value (persistentIDs Streamer_zero_entry) ''A'' = 0"
    "QHash_value (transientOffsets Streamer_zero_entry) ''A'' = 0"
    by (simp_all add: Streamer_zero_entry_def RepeatedValueStreamer_ctor_def QHash_value_def)
  have w: "RepeatedValueStreamer_write ''A'' (Streamer_zero_entry, [])
       = Inr (Streamer_zero_entry\<lparr>lastTransientOffset := 1, transientOffsets := [''A'' \<mapsto> 1]\<rparr>,
              [IdToken 1, ValueToken ''A''])"
    "RepeatedValueStreamer_write ''A'' (RepeatedValueStreamer_ctor, [])
       = Inr (RepeatedValueStreamer_ctor\<lparr>lastTransientOffset := 1,
                transientOffsets := [''A'' \<mapsto> 1]\<rparr>,
              [IdToken 1, ValueToken ''A''])"
    by (simp_all add: Streamer_zero_entry_def RepeatedValueStreamer_ctor_def Let_def
        QHash_value_def QHash_index_def int_fits_def)
  from zero_is_absent [OF h, of "''A''" "[]"] e(2)
  have "1 \<le> QHash_value (transientOffsets
              (Streamer_zero_entry\<lparr>lastTransientOffset := 1,
                 transientOffsets := [''A'' \<mapsto> 1]\<rparr>)) ''A''"
    unfolding w(1) sum.case prod.case by blast
  with h e w show ?thesis by blast
qed

end
